theory Spec2Isabelle
  imports Complex_Main "HOL-Library.Sublist"
begin

section \<open>Data model\<close>

text \<open>
  The two pydantic models of \<^verbatim>\<open>src/main.py\<close>. Python's \<^verbatim>\<open>int\<close> is unbounded, hence
  \<^typ>\<open>int\<close>; \<^verbatim>\<open>str\<close> is \<^typ>\<open>string\<close>. The \<^verbatim>\<open>timestamp\<close> of a block is the reading of
  \<^verbatim>\<open>time()\<close>; it is only stored and serialised, never computed with, and is carried
  here as a \<^typ>\<open>real\<close>. The field \<^verbatim>\<open>proof\<close> is named \<open>block_proof\<close>, since
  \<open>proof\<close> is a keyword of the prover.
\<close>

record Transaction =
  sender :: string
  recipient :: string
  amount :: int

record Block =
  index :: int
  timestamp :: real
  transactions :: "Transaction list"
  block_proof :: int
  previous_hash :: string

section \<open>Decimal text of an integer\<close>

text \<open>
  \<^verbatim>\<open>f"{last_proof}{proof}"\<close> formats both integers as Python's \<^verbatim>\<open>str\<close> does: the decimal
  digits without leading zeros, with a leading minus sign for a negative number.
\<close>

definition digit_char :: "nat \<Rightarrow> char" where
  "digit_char d = ''0123456789'' ! d"

function digits_of_nat :: "nat \<Rightarrow> string" where
  "digits_of_nat n =
     (if n < 10 then [digit_char n] else digits_of_nat (n div 10) @ [digit_char (n mod 10)])"
  by pat_completeness auto
termination
  by (relation "measure id") auto

declare digits_of_nat.simps [simp del]

definition str_int :: "int \<Rightarrow> string" where
  "str_int i = (if i < 0 then CHR ''-'' # digits_of_nat (nat (- i)) else digits_of_nat (nat i))"

text \<open>Reading a digit string back, used to check that \<open>str_int\<close> is the decimal text.\<close>

definition digit_val :: "char \<Rightarrow> nat" where
  "digit_val c = of_char c - 48"

definition nat_of_digits :: "string \<Rightarrow> nat" where
  "nat_of_digits s = foldl (\<lambda>acc c. 10 * acc + digit_val c) 0 s"

definition int_of_str :: "string \<Rightarrow> int" where
  "int_of_str s =
     (case s of
        [] \<Rightarrow> 0
      | c # cs \<Rightarrow> if c = CHR ''-'' then - int (nat_of_digits cs) else int (nat_of_digits s))"

section \<open>Proof of work\<close>

text \<open>
  \<^verbatim>\<open>hashlib.sha256(bytes).hexdigest()\<close> is library code outside the repository. It is
  the parameter \<open>sha\<close> of every function that hashes: a function from the bytes hashed
  to the hexadecimal digest text. Every theorem below holds for every such function,
  SHA-256 among them. The text hashed by \<open>valid_proof\<close> is ASCII, which
  \<^verbatim>\<open>.encode()\<close> leaves as it is.
\<close>

definition valid_proof :: "(string \<Rightarrow> string) \<Rightarrow> int \<Rightarrow> int \<Rightarrow> bool" where
  "valid_proof sha last_proof proof' =
     (let guess = str_int last_proof @ str_int proof';
          guess_hash = sha guess
      in take 4 guess_hash = ''0000'')"

text \<open>
  The search loop of \<^verbatim>\<open>proof_of_work\<close> has no bound; it is a partial function, and
  \<open>None\<close> is the run that never returns.
\<close>

partial_function (option) proof_of_work_loop :: "(string \<Rightarrow> string) \<Rightarrow> int \<Rightarrow> int \<Rightarrow> int option" where
  "proof_of_work_loop sha last_proof proof' =
     (if \<not> valid_proof sha last_proof proof'
      then proof_of_work_loop sha last_proof (proof' + 1)
      else Some proof')"

declare proof_of_work_loop.simps [code]

definition proof_of_work :: "(string \<Rightarrow> string) \<Rightarrow> int \<Rightarrow> int option" where
  "proof_of_work sha last_proof = proof_of_work_loop sha last_proof 0"

section \<open>Python values and exceptions\<close>

text \<open>
  Python checks no annotation at run time. \<^verbatim>\<open>valid_chain\<close> is called on a chain of
  \<^verbatim>\<open>Block\<close> objects and, from \<^verbatim>\<open>resolve_conflicts\<close>, on whatever
  \<^verbatim>\<open>response.json()["chain"]\<close> decodes to: lists, dictionaries, strings, numbers,
  booleans and \<^verbatim>\<open>None\<close>, never \<^verbatim>\<open>Block\<close> objects. \<open>pyval\<close> holds both kinds of value.
  A finite float is carried as the real number it stands for (Python compares an \<^verbatim>\<open>int\<close>
  with a float by their exact values). The decoder also yields the two infinities (for
  \<^verbatim>\<open>Infinity\<close>, \<^verbatim>\<open>-Infinity\<close> and numbers too large for a float, such as \<^verbatim>\<open>1e400\<close>) and
  \<^verbatim>\<open>NaN\<close>.
\<close>

datatype pyfloat = Finite real | Infinity | MinusInfinity | NaN

datatype pyval =
    PNone
  | PBool bool
  | PInt int
  | PFloat pyfloat
  | PStr string
  | PList "pyval list"
  | PDict "(string \<times> pyval) list"
  | PBlock Block

datatype error =
    IndexError
  | KeyError
  | TypeError
  | AttributeError
  | ValidationError
  | ConnectionError
  | JSONDecodeError

text \<open>Truth value of an object, as \<^verbatim>\<open>or\<close> and \<^verbatim>\<open>if\<close> test it.\<close>

fun truthy :: "pyval \<Rightarrow> bool" where
  "truthy PNone = False"
| "truthy (PBool b) = b"
| "truthy (PInt n) = (n \<noteq> 0)"
| "truthy (PFloat x) = (x \<noteq> Finite 0)"
| "truthy (PStr s) = (s \<noteq> [])"
| "truthy (PList xs) = (xs \<noteq> [])"
| "truthy (PDict kvs) = (kvs \<noteq> [])"
| "truthy (PBlock b) = True"

text \<open>\<^verbatim>\<open>len(x)\<close>.\<close>

fun py_len :: "pyval \<Rightarrow> error + nat" where
  "py_len (PStr s) = Inr (length s)"
| "py_len (PList xs) = Inr (length xs)"
| "py_len (PDict kvs) = Inr (length (remdups (map fst kvs)))"
| "py_len PNone = Inl TypeError"
| "py_len (PBool b) = Inl TypeError"
| "py_len (PInt n) = Inl TypeError"
| "py_len (PFloat x) = Inl TypeError"
| "py_len (PBlock b) = Inl TypeError"

text \<open>
  \<^verbatim>\<open>x[i]\<close> for an integer \<open>i\<close>; a negative index counts from the end. The keys of a
  decoded JSON object are strings, so an integer is never among them.
\<close>

definition seq_index :: "'a list \<Rightarrow> int \<Rightarrow> error + 'a" where
  "seq_index xs i =
     (if 0 \<le> i \<and> i < int (length xs) then Inr (xs ! nat i)
      else if i < 0 \<and> - i \<le> int (length xs) then Inr (xs ! nat (int (length xs) + i))
      else Inl IndexError)"

fun py_getitem :: "pyval \<Rightarrow> int \<Rightarrow> error + pyval" where
  "py_getitem (PList xs) i = seq_index xs i"
| "py_getitem (PStr s) i = (case seq_index s i of Inl e \<Rightarrow> Inl e | Inr c \<Rightarrow> Inr (PStr [c]))"
| "py_getitem (PDict kvs) i = Inl KeyError"
| "py_getitem PNone i = Inl TypeError"
| "py_getitem (PBool b) i = Inl TypeError"
| "py_getitem (PInt n) i = Inl TypeError"
| "py_getitem (PFloat x) i = Inl TypeError"
| "py_getitem (PBlock b) i = Inl TypeError"

text \<open>
  \<^verbatim>\<open>x[key]\<close> for a string key. A dictionary is an association list in which the first
  pair with a key is the entry for it.
\<close>

fun py_getitem_key :: "pyval \<Rightarrow> string \<Rightarrow> error + pyval" where
  "py_getitem_key (PDict kvs) k = (case map_of kvs k of None \<Rightarrow> Inl KeyError | Some v \<Rightarrow> Inr v)"
| "py_getitem_key v k = Inl TypeError"

text \<open>
  Attribute reads. Among the values here only a \<^verbatim>\<open>Block\<close> object has the attributes
  \<^verbatim>\<open>proof\<close> and \<^verbatim>\<open>previous_hash\<close>. A string and a list do have an attribute \<^verbatim>\<open>index\<close>, a
  method, and adding 1 to a method raises \<^verbatim>\<open>TypeError\<close>: \<open>index_plus_one\<close> is the
  expression \<^verbatim>\<open>x.index + 1\<close>.
\<close>

fun index_plus_one :: "pyval \<Rightarrow> error + int" where
  "index_plus_one (PBlock b) = Inr (index b + 1)"
| "index_plus_one (PStr s) = Inl TypeError"
| "index_plus_one (PList xs) = Inl TypeError"
| "index_plus_one v = Inl AttributeError"

fun attr_proof :: "pyval \<Rightarrow> error + int" where
  "attr_proof (PBlock b) = Inr (block_proof b)"
| "attr_proof v = Inl AttributeError"

fun attr_previous_hash :: "pyval \<Rightarrow> error + string" where
  "attr_previous_hash (PBlock b) = Inr (previous_hash b)"
| "attr_previous_hash v = Inl AttributeError"

text \<open>
  The number a value stands for in the comparison \<^verbatim>\<open>length > max_length\<close> (\<^verbatim>\<open>bool\<close> is a
  subclass of \<^verbatim>\<open>int\<close>); comparing anything else with a number raises. \<open>float_gt\<close> is
  \<^verbatim>\<open>>\<close> on numbers: nothing is greater than \<^verbatim>\<open>NaN\<close>, and \<^verbatim>\<open>NaN\<close> is greater than nothing.
\<close>

fun py_number :: "pyval \<Rightarrow> error + pyfloat" where
  "py_number (PInt n) = Inr (Finite (of_int n))"
| "py_number (PFloat x) = Inr x"
| "py_number (PBool b) = Inr (Finite (if b then 1 else 0))"
| "py_number v = Inl TypeError"

fun float_gt :: "pyfloat \<Rightarrow> pyfloat \<Rightarrow> bool" where
  "float_gt (Finite a) (Finite b) = (b < a)"
| "float_gt (Finite a) MinusInfinity = True"
| "float_gt Infinity (Finite b) = True"
| "float_gt Infinity MinusInfinity = True"
| "float_gt x y = False"

text \<open>
  The argument \<^verbatim>\<open>previous_hash\<close> of \<^verbatim>\<open>new_block\<close> is declared \<^verbatim>\<open>Optional[str]\<close>; it is
  given a string by \<^verbatim>\<open>mine\<close>, the integer 1 by \<^verbatim>\<open>__init__\<close>, and is \<^verbatim>\<open>None\<close> by default.
  \<open>arg_truthy\<close> is its truth value under \<^verbatim>\<open>or\<close>. \<open>str_validator\<close> is what pydantic
  (version 1, whose \<^verbatim>\<open>.json()\<close> the code calls) does to the value given for a field
  declared \<^verbatim>\<open>str\<close>: a string is kept, an integer becomes its text.
\<close>

datatype hash_arg = NoHash | IntHash int | StrHash string

fun arg_truthy :: "hash_arg \<Rightarrow> bool" where
  "arg_truthy NoHash = False"
| "arg_truthy (IntHash n) = (n \<noteq> 0)"
| "arg_truthy (StrHash s) = (s \<noteq> [])"

fun str_validator :: "hash_arg \<Rightarrow> error + string" where
  "str_validator (StrHash s) = Inr s"
| "str_validator (IntHash n) = Inr (str_int n)"
| "str_validator NoHash = Inl ValidationError"

section \<open>The ledger\<close>

text \<open>
  \<^verbatim>\<open>Blockchain.hash\<close>: the digest of \<^verbatim>\<open>block.json().encode()\<close>. The serialiser of
  pydantic is library code as well; \<open>js\<close> is the parameter for it, the bytes of a block's
  JSON text. A value without a \<^verbatim>\<open>json\<close> method raises.
\<close>

fun hash :: "(string \<Rightarrow> string) \<Rightarrow> (Block \<Rightarrow> string) \<Rightarrow> pyval \<Rightarrow> error + string" where
  "hash sha js (PBlock b) = Inr (sha (js b))"
| "hash sha js v = Inl AttributeError"

text \<open>
  The state of a \<^verbatim>\<open>Blockchain\<close> object. \<^verbatim>\<open>nodes\<close> is a Python set; the list is the set in
  the order in which \<^verbatim>\<open>for node in neighbours\<close> visits it. An operation returns the state
  it leaves behind together with its result or the exception it raised.
\<close>

record Blockchain =
  chain :: pyval
  current_transactions :: "Transaction list"
  nodes :: "string list"

definition last_block :: "Blockchain \<Rightarrow> error + pyval" where
  "last_block s = py_getitem (chain s) (- 1)"

text \<open>
  \<^verbatim>\<open>new_block\<close>; \<open>now\<close> is what \<^verbatim>\<open>time()\<close> returns. The arguments of \<^verbatim>\<open>Block(...)\<close> are
  evaluated in order, then the pool is reset, then the block is appended, which only a
  list can do.
\<close>

definition new_block ::
  "(string \<Rightarrow> string) \<Rightarrow> (Block \<Rightarrow> string) \<Rightarrow> real \<Rightarrow> Blockchain \<Rightarrow> int \<Rightarrow> hash_arg
     \<Rightarrow> Blockchain \<times> (error + Block)" where
  "new_block sha js now s proof' prev_hash =
     (case py_len (chain s) of
        Inl e \<Rightarrow> (s, Inl e)
      | Inr n \<Rightarrow>
         (case (if arg_truthy prev_hash then Inr prev_hash
                else (case py_getitem (chain s) (- 1) of
                        Inl e \<Rightarrow> Inl e
                      | Inr tip \<Rightarrow> (case hash sha js tip of Inl e \<Rightarrow> Inl e | Inr h \<Rightarrow> Inr (StrHash h)))) of
            Inl e \<Rightarrow> (s, Inl e)
          | Inr ph \<Rightarrow>
             (case str_validator ph of
                Inl e \<Rightarrow> (s, Inl e)
              | Inr phs \<Rightarrow>
                 (let block = \<lparr>index = int n + 1, timestamp = now,
                               transactions = current_transactions s,
                               block_proof = proof', previous_hash = phs\<rparr>;
                      s1 = s\<lparr>current_transactions := []\<rparr>
                  in (case chain s1 of
                        PList xs \<Rightarrow> (s1\<lparr>chain := PList (xs @ [PBlock block])\<rparr>, Inr block)
                      | _ \<Rightarrow> (s1, Inl AttributeError))))))"

text \<open>\<^verbatim>\<open>Blockchain()\<close>: the empty ledger, then the genesis block.\<close>

definition Blockchain_init :: "(string \<Rightarrow> string) \<Rightarrow> (Block \<Rightarrow> string) \<Rightarrow> real \<Rightarrow> Blockchain \<times> (error + Block)" where
  "Blockchain_init sha js now =
     new_block sha js now \<lparr>chain = PList [], current_transactions = [], nodes = []\<rparr> 100 (IntHash 1)"

definition new_transaction :: "Blockchain \<Rightarrow> Transaction \<Rightarrow> Blockchain \<times> (error + int)" where
  "new_transaction s tx =
     (let s1 = s\<lparr>current_transactions := current_transactions s @ [tx]\<rparr>
      in (case last_block s1 of
            Inl e \<Rightarrow> (s1, Inl e)
          | Inr lb \<Rightarrow> (case index_plus_one lb of Inl e \<Rightarrow> (s1, Inl e) | Inr i \<Rightarrow> (s1, Inr i))))"

text \<open>
  The check of a whole chain. \<open>valid_chain_loop\<close> is the \<^verbatim>\<open>while\<close> loop, with the
  loop variables \<^verbatim>\<open>previous_block\<close> and \<^verbatim>\<open>index\<close>.
\<close>

function valid_chain_loop ::
  "(string \<Rightarrow> string) \<Rightarrow> (Block \<Rightarrow> string) \<Rightarrow> pyval \<Rightarrow> pyval \<Rightarrow> nat \<Rightarrow> error + bool" where
  "valid_chain_loop sha js chain' previous_block index' =
     (case py_len chain' of
        Inl e \<Rightarrow> Inl e
      | Inr n \<Rightarrow>
         if index' < n then
           (case py_getitem chain' (int index') of
              Inl e \<Rightarrow> Inl e
            | Inr block \<Rightarrow>
               (case attr_previous_hash block of
                  Inl e \<Rightarrow> Inl e
                | Inr ph \<Rightarrow>
                   (case hash sha js previous_block of
                      Inl e \<Rightarrow> Inl e
                    | Inr h \<Rightarrow>
                       if ph \<noteq> h then Inr False
                       else
                         (case attr_proof previous_block of
                            Inl e \<Rightarrow> Inl e
                          | Inr lp \<Rightarrow>
                             (case attr_proof block of
                                Inl e \<Rightarrow> Inl e
                              | Inr p \<Rightarrow>
                                 if \<not> valid_proof sha lp p then Inr False
                                 else valid_chain_loop sha js chain' block (index' + 1))))))
         else Inr True)"
  by pat_completeness auto
termination
  by (relation "measure (\<lambda>(sha, js, c, pb, i). (case py_len c of Inl e \<Rightarrow> 0 | Inr n \<Rightarrow> n - i))") auto

declare valid_chain_loop.simps [simp del]

definition valid_chain :: "(string \<Rightarrow> string) \<Rightarrow> (Block \<Rightarrow> string) \<Rightarrow> pyval \<Rightarrow> error + bool" where
  "valid_chain sha js chain' =
     (case py_getitem chain' 0 of
        Inl e \<Rightarrow> Inl e
      | Inr previous_block \<Rightarrow> valid_chain_loop sha js chain' previous_block 1)"

section \<open>Consensus\<close>

text \<open>
  What \<^verbatim>\<open>requests.get\<close> does for a node: it raises (no connection), or it returns a
  response with a status code and a body; \<^verbatim>\<open>response.json()\<close> decodes the body, and
  raises when the body is not JSON (\<open>None\<close>). The network is the parameter \<open>fetch\<close>.
\<close>

datatype response = ConnectionFailed | Response int "pyval option"

text \<open>
  The \<^verbatim>\<open>for\<close> loop of \<^verbatim>\<open>resolve_conflicts\<close> with its two variables \<^verbatim>\<open>max_length\<close> and
  \<^verbatim>\<open>new_chain\<close>. \<^verbatim>\<open>and\<close> evaluates \<^verbatim>\<open>valid_chain\<close> only when the length is greater.
\<close>

fun resolve_loop ::
  "(string \<Rightarrow> string) \<Rightarrow> (Block \<Rightarrow> string) \<Rightarrow> (string \<Rightarrow> response) \<Rightarrow> string list \<Rightarrow> pyfloat \<Rightarrow> pyval
     \<Rightarrow> error + (pyfloat \<times> pyval)" where
  "resolve_loop sha js fetch [] max_length new_chain = Inr (max_length, new_chain)"
| "resolve_loop sha js fetch (node # rest) max_length new_chain =
     (case fetch node of
        ConnectionFailed \<Rightarrow> Inl ConnectionError
      | Response status_code body \<Rightarrow>
         if status_code = 200 then
           (case body of
              None \<Rightarrow> Inl JSONDecodeError
            | Some j \<Rightarrow>
               (case py_getitem_key j ''chain'' of
                  Inl e \<Rightarrow> Inl e
                | Inr chain' \<Rightarrow>
                   (case py_getitem_key j ''length'' of
                      Inl e \<Rightarrow> Inl e
                    | Inr length' \<Rightarrow>
                       (case py_number length' of
                          Inl e \<Rightarrow> Inl e
                        | Inr len \<Rightarrow>
                           if float_gt len max_length then
                             (case valid_chain sha js chain' of
                                Inl e \<Rightarrow> Inl e
                              | Inr ok \<Rightarrow>
                                 if ok then resolve_loop sha js fetch rest len chain'
                                 else resolve_loop sha js fetch rest max_length new_chain)
                           else resolve_loop sha js fetch rest max_length new_chain))))
         else resolve_loop sha js fetch rest max_length new_chain)"

text \<open>
  \<^verbatim>\<open>resolve_conflicts\<close>. The only assignment to the object is the last one, so an
  exception leaves the state as it was.
\<close>

definition resolve_conflicts ::
  "(string \<Rightarrow> string) \<Rightarrow> (Block \<Rightarrow> string) \<Rightarrow> (string \<Rightarrow> response) \<Rightarrow> Blockchain
     \<Rightarrow> Blockchain \<times> (error + bool)" where
  "resolve_conflicts sha js fetch s =
     (case py_len (chain s) of
        Inl e \<Rightarrow> (s, Inl e)
      | Inr n \<Rightarrow>
         (case resolve_loop sha js fetch (nodes s) (Finite (of_nat n)) PNone of
            Inl e \<Rightarrow> (s, Inl e)
          | Inr (max_length, new_chain) \<Rightarrow>
             if truthy new_chain then (s\<lparr>chain := new_chain\<rparr>, Inr True) else (s, Inr False)))"

section \<open>The operations of the node\<close>

text \<open>
  \<^verbatim>\<open>mine()\<close>; \<open>node_id\<close> is the module's global of that name. The outer \<open>None\<close> is the run
  whose proof search never returns.
\<close>

definition mine ::
  "(string \<Rightarrow> string) \<Rightarrow> (Block \<Rightarrow> string) \<Rightarrow> string \<Rightarrow> real \<Rightarrow> Blockchain
     \<Rightarrow> (Blockchain \<times> (error + Block)) option" where
  "mine sha js node_id now s =
     (case last_block s of
        Inl e \<Rightarrow> Some (s, Inl e)
      | Inr lb \<Rightarrow>
         (case attr_proof lb of
            Inl e \<Rightarrow> Some (s, Inl e)
          | Inr lp \<Rightarrow>
             (case proof_of_work sha lp of
                None \<Rightarrow> None
              | Some p \<Rightarrow>
                 (case new_transaction s \<lparr>sender = ''0'', recipient = node_id, amount = 1\<rparr> of
                    (s1, Inl e) \<Rightarrow> Some (s1, Inl e)
                  | (s1, Inr i) \<Rightarrow>
                     (case hash sha js lb of
                        Inl e \<Rightarrow> Some (s1, Inl e)
                      | Inr h \<Rightarrow> Some (new_block sha js now s1 p (StrHash h)))))))"

text \<open>The handler of \<^verbatim>\<open>POST /transactions\<close>.\<close>

definition new_transaction_endpoint :: "Blockchain \<Rightarrow> Transaction \<Rightarrow> Blockchain \<times> (error + string)" where
  "new_transaction_endpoint s tx =
     (case new_transaction s tx of
        (s1, Inl e) \<Rightarrow> (s1, Inl e)
      | (s1, Inr i) \<Rightarrow> (s1, Inr (''Transaction will be added to Block '' @ str_int i)))"

text \<open>
  A history of the node: mining requests, each with the clock reading its block gets, and
  submitted transactions. The server goes on after a request that raised, with the state
  that request left.
\<close>

datatype request = Mine real | Submit Transaction

fun run ::
  "(string \<Rightarrow> string) \<Rightarrow> (Block \<Rightarrow> string) \<Rightarrow> string \<Rightarrow> request list \<Rightarrow> Blockchain \<Rightarrow> Blockchain option" where
  "run sha js node_id [] s = Some s"
| "run sha js node_id (Mine now # rs) s =
     (case mine sha js node_id now s of
        None \<Rightarrow> None
      | Some (s1, r) \<Rightarrow> run sha js node_id rs s1)"
| "run sha js node_id (Submit tx # rs) s =
     run sha js node_id rs (fst (new_transaction_endpoint s tx))"

section \<open>The properties in the words of the specification\<close>

text \<open>
  A pair of neighbours passes when the later block stores the hash of the earlier one
  and its proof is valid against the earlier proof; a sequence of blocks is linked when
  every pair of neighbours passes.
\<close>

definition pair_ok :: "(string \<Rightarrow> string) \<Rightarrow> (Block \<Rightarrow> string) \<Rightarrow> Block \<Rightarrow> Block \<Rightarrow> bool" where
  "pair_ok sha js prev cur =
     (previous_hash cur = sha (js prev) \<and> valid_proof sha (block_proof prev) (block_proof cur))"

definition all_pairs_ok :: "(string \<Rightarrow> string) \<Rightarrow> (Block \<Rightarrow> string) \<Rightarrow> Block list \<Rightarrow> bool" where
  "all_pairs_ok sha js bs = (\<forall>i. Suc i < length bs \<longrightarrow> pair_ok sha js (bs ! i) (bs ! Suc i))"

text \<open>
  A peer offers the chain \<open>c\<close> with the reported length \<open>l\<close>: it answers with status
  200 and a body whose \<^verbatim>\<open>"chain"\<close> is \<open>c\<close>, whose \<^verbatim>\<open>"length"\<close> is the number \<open>l\<close>, and the
  validator returns true on \<open>c\<close>.
\<close>

definition offers ::
  "(string \<Rightarrow> string) \<Rightarrow> (Block \<Rightarrow> string) \<Rightarrow> (string \<Rightarrow> response) \<Rightarrow> string \<Rightarrow> pyval \<Rightarrow> pyfloat \<Rightarrow> bool" where
  "offers sha js fetch node c l =
     (case fetch node of
        ConnectionFailed \<Rightarrow> False
      | Response status_code body \<Rightarrow>
          status_code = 200 \<and>
          (case body of
             None \<Rightarrow> False
           | Some j \<Rightarrow>
               py_getitem_key j ''chain'' = Inr c \<and>
               (case py_getitem_key j ''length'' of Inl e \<Rightarrow> False | Inr lv \<Rightarrow> py_number lv = Inr l) \<and>
               valid_chain sha js c = Inr True))"

text \<open>The digest begins with four zero characters.\<close>

definition four_zeros_prefix :: "string \<Rightarrow> bool" where
  "four_zeros_prefix digest = prefix (replicate 4 CHR ''0'') digest"

section \<open>A small digest and serialiser for evaluating examples\<close>

text \<open>
  An instance of the two parameters on which the functions can be run by rewriting: the
  digest starts with four zeros exactly when the text hashed ends in the digit 3, and it
  repeats its input, so different texts have different digests.
\<close>

definition ex_sha :: "string \<Rightarrow> string" where
  "ex_sha bytes = (if bytes \<noteq> [] \<and> last bytes = CHR ''3'' then ''0000'' else ''beef'') @ bytes"

definition ex_js :: "Block \<Rightarrow> string" where
  "ex_js b = str_int (index b) @ '','' @ str_int (block_proof b) @ '','' @ previous_hash b"

text \<open>A ledger on which the example digest can be run: a transaction, then one mined block.\<close>

definition ex_tx :: Transaction where
  "ex_tx = \<lparr>sender = ''alice'', recipient = ''bob'', amount = 5\<rparr>"

definition ex_genesis :: Block where
  "ex_genesis = \<lparr>index = 1, timestamp = 1, transactions = [], block_proof = 100, previous_hash = ''1''\<rparr>"

definition ex_block2 :: Block where
  "ex_block2 =
     \<lparr>index = 2, timestamp = 2,
      transactions = [ex_tx, \<lparr>sender = ''0'', recipient = ''node'', amount = 1\<rparr>],
      block_proof = 3, previous_hash = ''beef1,100,1''\<rparr>"

definition ex_ledger1 :: Blockchain where
  "ex_ledger1 = \<lparr>chain = PList [PBlock ex_genesis], current_transactions = [], nodes = []\<rparr>"

definition ex_ledger2 :: Blockchain where
  "ex_ledger2 =
     \<lparr>chain = PList [PBlock ex_genesis, PBlock ex_block2], current_transactions = [], nodes = []\<rparr>"

text \<open>
  What a peer that holds the blocks \<open>bs\<close> answers to \<^verbatim>\<open>GET /chain\<close>, as
  \<^verbatim>\<open>response.json()\<close> decodes it: \<^verbatim>\<open>get_full_chain\<close> returns the chain and its length,
  and each block travels as a JSON object with the fields of \<^verbatim>\<open>Block\<close>.
\<close>

definition json_of_transaction :: "Transaction \<Rightarrow> pyval" where
  "json_of_transaction t =
     PDict [(''sender'', PStr (sender t)), (''recipient'', PStr (recipient t)),
            (''amount'', PInt (amount t))]"

definition json_of_block :: "Block \<Rightarrow> pyval" where
  "json_of_block b =
     PDict [(''index'', PInt (index b)), (''timestamp'', PFloat (Finite (timestamp b))),
            (''transactions'', PList (map json_of_transaction (transactions b))),
            (''proof'', PInt (block_proof b)), (''previous_hash'', PStr (previous_hash b))]"

definition get_full_chain :: "Block list \<Rightarrow> response" where
  "get_full_chain bs =
     Response 200 (Some (PDict [(''chain'', PList (map json_of_block bs)),
                                (''length'', PInt (int (length bs)))]))"

text \<open>
  Three networks for the examples: one whose only peer holds the two-block example chain,
  one where nothing can be reached, and one where the peer \<open>down\<close> answers 503 and every
  other peer holds the genesis block only.
\<close>

definition ex_net_longer :: "string \<Rightarrow> response" where
  "ex_net_longer node = get_full_chain [ex_genesis, ex_block2]"

definition ex_net_unreachable :: "string \<Rightarrow> response" where
  "ex_net_unreachable node = ConnectionFailed"

definition ex_net_one_down :: "string \<Rightarrow> response" where
  "ex_net_one_down node =
     (if node = ''down'' then Response 503 None else get_full_chain [ex_genesis])"

text \<open>A peer that reports length 3 and sends one block.\<close>

definition ex_net_overstated :: "string \<Rightarrow> response" where
  "ex_net_overstated node =
     Response 200 (Some (PDict [(''chain'', PList [json_of_block ex_genesis]),
                                (''length'', PInt 3)]))"

section \<open>Lemmas about the decimal text\<close>

lemma nat_of_digits_snoc: "nat_of_digits (s @ [c]) = 10 * nat_of_digits s + digit_val c"
  by (simp add: nat_of_digits_def)

lemma of_char_digit_char: "d < 10 \<Longrightarrow> of_char (digit_char d) = 48 + d"
proof -
  assume "d < 10"
  then have "d = 0 \<or> d = 1 \<or> d = 2 \<or> d = 3 \<or> d = 4 \<or> d = 5 \<or> d = 6 \<or> d = 7 \<or> d = 8 \<or> d = 9"
    by arith
  then show ?thesis by (auto simp: digit_char_def)
qed

lemma digit_val_digit_char: "d < 10 \<Longrightarrow> digit_val (digit_char d) = d"
  by (simp add: digit_val_def of_char_digit_char)

lemma digits_of_nat_small: "n < 10 \<Longrightarrow> digits_of_nat n = [digit_char n]"
  by (subst digits_of_nat.simps) simp

lemma digits_of_nat_large:
  "\<not> n < 10 \<Longrightarrow> digits_of_nat n = digits_of_nat (n div 10) @ [digit_char (n mod 10)]"
  by (subst digits_of_nat.simps) simp

lemma nat_of_digits_of_nat: "nat_of_digits (digits_of_nat n) = n"
proof (induction n rule: digits_of_nat.induct)
  case (1 n)
  show ?case
  proof (cases "n < 10")
    case True
    then show ?thesis by (simp add: digits_of_nat_small nat_of_digits_def digit_val_digit_char)
  next
    case False
    with 1 show ?thesis
      by (simp add: digits_of_nat_large nat_of_digits_snoc digit_val_digit_char)
  qed
qed

lemma digits_of_nat_nonempty: "digits_of_nat n \<noteq> []"
  by (subst digits_of_nat.simps) simp

lemma digit_char_not_minus: "d < 10 \<Longrightarrow> digit_char d \<noteq> CHR ''-''"
proof
  assume d: "d < 10" and eq: "digit_char d = CHR ''-''"
  from eq have "(of_char (digit_char d) :: nat) = of_char CHR ''-''" by simp
  with d show False by (simp add: of_char_digit_char)
qed

lemma hd_digits_not_minus: "hd (digits_of_nat n) \<noteq> CHR ''-''"
proof (induction n rule: digits_of_nat.induct)
  case (1 n)
  show ?case
  proof (cases "n < 10")
    case True
    then show ?thesis by (simp add: digits_of_nat_small digit_char_not_minus)
  next
    case False
    with 1 show ?thesis
      by (simp add: digits_of_nat_large digits_of_nat_nonempty)
  qed
qed

lemma int_of_str_str_int: "int_of_str (str_int i) = i"
proof (cases "i < 0")
  case True
  then show ?thesis by (simp add: int_of_str_def str_int_def nat_of_digits_of_nat)
next
  case False
  obtain c cs where s: "digits_of_nat (nat i) = c # cs"
    using digits_of_nat_nonempty [of "nat i"] by (cases "digits_of_nat (nat i)") auto
  have "c \<noteq> CHR ''-''" using hd_digits_not_minus [of "nat i"] s by simp
  moreover have "nat_of_digits (c # cs) = nat i" using nat_of_digits_of_nat [of "nat i"] s by simp
  ultimately show ?thesis using False s by (simp add: int_of_str_def str_int_def)
qed

lemma take4_prefix: "(take 4 h = ''0000'') = prefix (replicate 4 CHR ''0'') h"
proof
  assume "take 4 h = ''0000''"
  then have "h = ''0000'' @ drop 4 h" by (metis append_take_drop_id)
  moreover have "replicate 4 CHR ''0'' = ''0000''" by (simp add: eval_nat_numeral)
  ultimately show "prefix (replicate 4 CHR ''0'') h" by (metis prefixI)
next
  assume "prefix (replicate 4 CHR ''0'') h"
  then obtain r where "h = replicate 4 CHR ''0'' @ r" by (auto simp: prefix_def)
  then show "take 4 h = ''0000''" by (simp add: eval_nat_numeral)
qed

lemma replicate_four_zeros: "replicate 4 CHR ''0'' = ''0000''"
  by (simp add: eval_nat_numeral)

section \<open>Lemmas about the proof search\<close>

lemma pow_loop_found:
  "valid_proof sha lp (start + int k) \<Longrightarrow>
   (\<forall>r. start \<le> r \<and> r < start + int k \<longrightarrow> \<not> valid_proof sha lp r) \<Longrightarrow>
   proof_of_work_loop sha lp start = Some (start + int k)"
proof (induction k arbitrary: start)
  case 0
  then show ?case by (subst proof_of_work_loop.simps) simp
next
  case (Suc k)
  have nv: "\<not> valid_proof sha lp start" using Suc.prems(2) by simp
  have "proof_of_work_loop sha lp (start + 1) = Some ((start + 1) + int k)"
  proof (rule Suc.IH)
    show "valid_proof sha lp (start + 1 + int k)" using Suc.prems(1) by (simp add: add.assoc)
    show "\<forall>r. start + 1 \<le> r \<and> r < start + 1 + int k \<longrightarrow> \<not> valid_proof sha lp r"
      using Suc.prems(2) by simp
  qed
  with nv show ?case by (subst proof_of_work_loop.simps) (simp add: add.assoc)
qed

lemma pow_loop_sound:
  assumes "proof_of_work_loop sha lp start = Some q"
  shows "valid_proof sha lp q"
proof (rule proof_of_work_loop.raw_induct [where P = "\<lambda>s l p y. valid_proof s l y", OF _ assms])
  fix f :: "(string \<Rightarrow> string) \<Rightarrow> int \<Rightarrow> int \<Rightarrow> int option" and s l p y
  assume IH: "\<And>s l p y. f s l p = Some y \<Longrightarrow> valid_proof s l y"
  assume "(if \<not> valid_proof s l p then f s l (p + 1) else Some p) = Some y"
  then show "valid_proof s l y" by (cases "valid_proof s l p") (auto dest: IH)
qed

section \<open>Lemmas about the chain validator\<close>

lemma seq_index_nat: "i < length xs \<Longrightarrow> seq_index xs (int i) = Inr (xs ! i)"
  by (simp add: seq_index_def)

lemma seq_index_last: "xs \<noteq> [] \<Longrightarrow> seq_index xs (- 1) = Inr (last xs)"
proof -
  assume ne: "xs \<noteq> []"
  then have "nat (int (length xs) + - 1) = length xs - 1" by (cases xs) auto
  moreover have "- (- 1) \<le> int (length xs)" using ne by (cases xs) auto
  ultimately show ?thesis using ne by (simp add: seq_index_def last_conv_nth)
qed

lemma seq_index_empty: "seq_index [] i = Inl IndexError"
  by (simp add: seq_index_def)

lemma valid_chain_loop_end:
  "valid_chain_loop sha js (PList xs) pb (length xs) = Inr True"
  by (subst valid_chain_loop.simps) simp

lemma valid_chain_loop_step:
  assumes "i < length xs" and "xs ! i = PBlock b"
  shows "valid_chain_loop sha js (PList xs) (PBlock a) i =
           (if pair_ok sha js a b then valid_chain_loop sha js (PList xs) (PBlock b) (Suc i)
            else Inr False)"
  using assms by (subst valid_chain_loop.simps) (auto simp: seq_index_nat pair_ok_def)

lemma valid_chain_loop_blocks:
  assumes "1 \<le> i" and "i \<le> length bs"
  shows "valid_chain_loop sha js (PList (map PBlock bs @ rest)) (PBlock (bs ! (i - 1))) i =
           (if \<forall>j. i \<le> j \<and> j < length bs \<longrightarrow> pair_ok sha js (bs ! (j - 1)) (bs ! j)
            then valid_chain_loop sha js (PList (map PBlock bs @ rest)) (PBlock (bs ! (length bs - 1))) (length bs)
            else Inr False)"
  using assms
proof (induction "length bs - i" arbitrary: i)
  case 0
  then have "i = length bs" by simp
  then show ?case by auto
next
  case (Suc k)
  then have lt: "i < length bs" by simp
  let ?c = "map PBlock bs @ rest"
  have el: "?c ! i = PBlock (bs ! i)" using lt by (simp add: nth_append)
  have len: "i < length ?c" using lt by simp
  have step: "valid_chain_loop sha js (PList ?c) (PBlock (bs ! (i - 1))) i =
          (if pair_ok sha js (bs ! (i - 1)) (bs ! i)
           then valid_chain_loop sha js (PList ?c) (PBlock (bs ! i)) (Suc i) else Inr False)"
    by (rule valid_chain_loop_step [OF len el])
  have IH: "valid_chain_loop sha js (PList ?c) (PBlock (bs ! (Suc i - 1))) (Suc i) =
           (if \<forall>j. Suc i \<le> j \<and> j < length bs \<longrightarrow> pair_ok sha js (bs ! (j - 1)) (bs ! j)
            then valid_chain_loop sha js (PList ?c) (PBlock (bs ! (length bs - 1))) (length bs)
            else Inr False)"
    using Suc.hyps(2) lt by (intro Suc.hyps(1)) auto
  have split: "(\<forall>j. i \<le> j \<and> j < length bs \<longrightarrow> pair_ok sha js (bs ! (j - 1)) (bs ! j)) =
        (pair_ok sha js (bs ! (i - 1)) (bs ! i) \<and>
         (\<forall>j. Suc i \<le> j \<and> j < length bs \<longrightarrow> pair_ok sha js (bs ! (j - 1)) (bs ! j)))"
    using lt by (metis Suc_leI le_eq_less_or_eq order_refl Suc_le_lessD less_imp_le_nat)
  show ?case unfolding step split using IH by auto
qed

lemma all_pairs_ok_shift:
  "all_pairs_ok sha js bs = (\<forall>j. 1 \<le> j \<and> j < length bs \<longrightarrow> pair_ok sha js (bs ! (j - 1)) (bs ! j))"
proof
  assume a: "all_pairs_ok sha js bs"
  show "\<forall>j. 1 \<le> j \<and> j < length bs \<longrightarrow> pair_ok sha js (bs ! (j - 1)) (bs ! j)"
  proof (intro allI impI)
    fix j assume j: "1 \<le> j \<and> j < length bs"
    then obtain i where "j = Suc i" by (cases j) auto
    with a j show "pair_ok sha js (bs ! (j - 1)) (bs ! j)" by (simp add: all_pairs_ok_def)
  qed
next
  assume a: "\<forall>j. 1 \<le> j \<and> j < length bs \<longrightarrow> pair_ok sha js (bs ! (j - 1)) (bs ! j)"
  show "all_pairs_ok sha js bs"
    unfolding all_pairs_ok_def
  proof (intro allI impI)
    fix i assume "Suc i < length bs"
    with a [rule_format, of "Suc i"] show "pair_ok sha js (bs ! i) (bs ! Suc i)" by simp
  qed
qed

lemma valid_chain_prefix:
  assumes "bs \<noteq> []"
  shows "valid_chain sha js (PList (map PBlock bs @ rest)) =
           (if all_pairs_ok sha js bs
            then valid_chain_loop sha js (PList (map PBlock bs @ rest)) (PBlock (last bs)) (length bs)
            else Inr False)"
proof -
  have len: "1 \<le> length bs" using assms by (cases bs) auto
  have first: "py_getitem (PList (map PBlock bs @ rest)) 0 = Inr (PBlock (bs ! 0))"
    using assms seq_index_nat [of 0 "map PBlock bs @ rest"] by (cases bs) auto
  have l: "bs ! (length bs - 1) = last bs" using assms by (simp add: last_conv_nth)
  have "valid_chain sha js (PList (map PBlock bs @ rest)) =
          valid_chain_loop sha js (PList (map PBlock bs @ rest)) (PBlock (bs ! (1 - 1))) 1"
    using first by (simp add: valid_chain_def)
  also have "\<dots> = (if all_pairs_ok sha js bs
            then valid_chain_loop sha js (PList (map PBlock bs @ rest)) (PBlock (bs ! (length bs - 1))) (length bs)
            else Inr False)"
    unfolding all_pairs_ok_shift by (rule valid_chain_loop_blocks [OF _ len]) simp
  finally show ?thesis unfolding l .
qed

lemma valid_chain_blocks:
  assumes "bs \<noteq> []"
  shows "valid_chain sha js (PList (map PBlock bs)) = Inr (all_pairs_ok sha js bs)"
  using valid_chain_prefix [OF assms, of sha js "[]"] valid_chain_loop_end [of sha js "map PBlock bs"]
  by simp

lemma all_pairs_ok_short: "length bs < 2 \<Longrightarrow> all_pairs_ok sha js bs"
  by (simp add: all_pairs_ok_def)

lemma all_pairs_ok_snoc:
  assumes "bs \<noteq> []"
  shows "all_pairs_ok sha js (bs @ [b]) = (all_pairs_ok sha js bs \<and> pair_ok sha js (last bs) b)"
proof
  assume a: "all_pairs_ok sha js (bs @ [b])"
  have "all_pairs_ok sha js bs"
    unfolding all_pairs_ok_def
  proof (intro allI impI)
    fix i assume i: "Suc i < length bs"
    with a have "pair_ok sha js ((bs @ [b]) ! i) ((bs @ [b]) ! Suc i)" by (simp add: all_pairs_ok_def)
    with i show "pair_ok sha js (bs ! i) (bs ! Suc i)" by (simp add: nth_append)
  qed
  moreover have "pair_ok sha js (last bs) b"
  proof -
    obtain k where k: "length bs = Suc k" using assms by (cases bs) auto
    with a have "pair_ok sha js ((bs @ [b]) ! k) ((bs @ [b]) ! Suc k)" by (simp add: all_pairs_ok_def)
    with k assms show ?thesis by (simp add: nth_append last_conv_nth)
  qed
  ultimately show "all_pairs_ok sha js bs \<and> pair_ok sha js (last bs) b" by simp
next
  assume a: "all_pairs_ok sha js bs \<and> pair_ok sha js (last bs) b"
  show "all_pairs_ok sha js (bs @ [b])"
    unfolding all_pairs_ok_def
  proof (intro allI impI)
    fix i assume i: "Suc i < length (bs @ [b])"
    show "pair_ok sha js ((bs @ [b]) ! i) ((bs @ [b]) ! Suc i)"
    proof (cases "Suc i < length bs")
      case True
      with a show ?thesis by (simp add: all_pairs_ok_def nth_append)
    next
      case False
      with i have e: "Suc i = length bs" by simp
      then have "(bs @ [b]) ! Suc i = b" by simp
      moreover have "(bs @ [b]) ! i = last bs"
        using e assms by (metis butlast_snoc diff_Suc_1 last_conv_nth lessI nth_butlast)
      ultimately show ?thesis using a by simp
    qed
  qed
qed

section \<open>Evaluation of the example digest\<close>

lemmas decimal_eval = str_int_def digits_of_nat_small digits_of_nat_large digit_char_def

lemma ex_valid_100:
  assumes "0 \<le> p" and "p \<le> 3"
  shows "valid_proof ex_sha 100 p = (p = 3)"
proof -
  from assms have "p = 0 \<or> p = 1 \<or> p = 2 \<or> p = 3" by arith
  then show ?thesis by (auto simp: valid_proof_def ex_sha_def decimal_eval)
qed

section \<open>Lemmas about the ledger operations\<close>

lemma ex_pow_100: "proof_of_work ex_sha 100 = Some 3"
proof -
  have "proof_of_work_loop ex_sha 100 0 = Some (0 + int 3)"
    by (rule pow_loop_found) (use ex_valid_100 in auto)
  then show ?thesis by (simp add: proof_of_work_def)
qed

lemma ex_hash_genesis: "ex_sha (ex_js ex_genesis) = ''beef1,100,1''"
  by (simp add: ex_sha_def ex_js_def ex_genesis_def decimal_eval)

lemma ex_pair_ok: "pair_ok ex_sha ex_js ex_genesis ex_block2"
  using ex_valid_100 [of 3]
  by (simp add: pair_ok_def ex_hash_genesis) (simp add: ex_genesis_def ex_block2_def)

lemma all_pairs_ok_two: "all_pairs_ok sha js [a, b] = pair_ok sha js a b"
  using all_pairs_ok_snoc [of "[a]" sha js b] by (simp add: all_pairs_ok_short)

lemma Blockchain_init_eq:
  "Blockchain_init sha js now =
     (\<lparr>chain = PList [PBlock \<lparr>index = 1, timestamp = now, transactions = [], block_proof = 100,
                               previous_hash = ''1''\<rparr>],
       current_transactions = [], nodes = []\<rparr>,
      Inr \<lparr>index = 1, timestamp = now, transactions = [], block_proof = 100, previous_hash = ''1''\<rparr>)"
  by (simp add: Blockchain_init_def new_block_def decimal_eval Let_def)

lemma new_transaction_endpoint_chain: "chain (fst (new_transaction_endpoint s tx)) = chain s"
  by (auto simp: new_transaction_endpoint_def new_transaction_def Let_def split: sum.splits prod.splits)

lemma new_transaction_blocks:
  assumes "chain s = PList xs" and "xs \<noteq> []" and "last xs = PBlock tip"
  shows "new_transaction s tx = (s\<lparr>current_transactions := current_transactions s @ [tx]\<rparr>, Inr (index tip + 1))"
  using assms by (simp add: new_transaction_def last_block_def seq_index_last Let_def)

lemma mine_blocks:
  assumes "chain s = PList xs" and "xs \<noteq> []" and "last xs = PBlock tip"
    and "proof_of_work sha (block_proof tip) = Some q"
  shows "mine sha js node_id now s =
           Some (\<lparr>chain = PList (xs @ [PBlock \<lparr>index = int (length xs) + 1, timestamp = now,
                      transactions = current_transactions s @ [\<lparr>sender = ''0'', recipient = node_id, amount = 1\<rparr>],
                      block_proof = q, previous_hash = sha (js tip)\<rparr>]),
                   current_transactions = [], nodes = nodes s\<rparr>,
                 Inr \<lparr>index = int (length xs) + 1, timestamp = now,
                      transactions = current_transactions s @ [\<lparr>sender = ''0'', recipient = node_id, amount = 1\<rparr>],
                      block_proof = q, previous_hash = sha (js tip)\<rparr>)"
  using assms
  by (cases s) (simp add: mine_def last_block_def seq_index_last new_transaction_blocks new_block_def Let_def)

lemma mine_diverges:
  assumes "chain s = PList xs" and "xs \<noteq> []" and "last xs = PBlock tip"
    and "proof_of_work sha (block_proof tip) = None"
  shows "mine sha js node_id now s = None"
  using assms by (simp add: mine_def last_block_def seq_index_last)

lemma ex_mine:
  "mine ex_sha ex_js ''node'' 2 (ex_ledger1\<lparr>current_transactions := [ex_tx]\<rparr>) =
     Some (ex_ledger2, Inr ex_block2)"
proof -
  have c: "chain (ex_ledger1\<lparr>current_transactions := [ex_tx]\<rparr>) = PList [PBlock ex_genesis]"
    by (simp add: ex_ledger1_def)
  have p: "proof_of_work ex_sha (block_proof ex_genesis) = Some 3"
    using ex_pow_100 by (simp add: ex_genesis_def)
  show ?thesis
    using mine_blocks [OF c _ _ p, where node_id = "''node''" and now = 2 and js = ex_js]
    by (simp add: ex_ledger2_def ex_block2_def ex_hash_genesis) (simp add: ex_ledger1_def)
qed

lemma ex_init: "fst (Blockchain_init ex_sha ex_js 1) = ex_ledger1"
  by (simp add: Blockchain_init_eq ex_ledger1_def ex_genesis_def)

lemma ex_submit: "fst (new_transaction_endpoint ex_ledger1 ex_tx) = ex_ledger1\<lparr>current_transactions := [ex_tx]\<rparr>"
  by (simp add: new_transaction_endpoint_def new_transaction_def Let_def ex_ledger1_def
      split: sum.splits)

lemma ex_run: "run ex_sha ex_js ''node'' [Submit ex_tx, Mine 2] ex_ledger1 = Some ex_ledger2"
  by (simp add: ex_submit ex_mine)

lemma run_keeps_linked:
  assumes "run sha js node_id rs s = Some s'"
    and "chain s = PList (map PBlock bs)" and "bs \<noteq> []" and "all_pairs_ok sha js bs"
  shows "\<exists>bs'. chain s' = PList (map PBlock bs') \<and> bs' \<noteq> [] \<and> all_pairs_ok sha js bs'"
  using assms
proof (induction rs arbitrary: s bs)
  case Nil
  then show ?case by auto
next
  case (Cons r rs)
  show ?case
  proof (cases r)
    case (Submit tx)
    let ?s1 = "fst (new_transaction_endpoint s tx)"
    have "run sha js node_id rs ?s1 = Some s'" using Cons.prems(1) Submit by simp
    moreover have "chain ?s1 = PList (map PBlock bs)"
      using Cons.prems(2) by (simp add: new_transaction_endpoint_chain)
    ultimately show ?thesis using Cons.IH Cons.prems(3,4) by blast
  next
    case (Mine now)
    have ne: "map PBlock bs \<noteq> []" using Cons.prems(3) by simp
    have tip: "last (map PBlock bs) = PBlock (last bs)" using Cons.prems(3) by (simp add: last_map)
    show ?thesis
    proof (cases "proof_of_work sha (block_proof (last bs))")
      case None
      have "mine sha js node_id now s = None"
        by (rule mine_diverges [OF Cons.prems(2) ne tip None])
      with Cons.prems(1) Mine show ?thesis by simp
    next
      case (Some q)
      define blk where "blk = \<lparr>index = int (length (map PBlock bs)) + 1, timestamp = now,
          transactions = current_transactions s @ [\<lparr>sender = ''0'', recipient = node_id, amount = 1\<rparr>],
          block_proof = q, previous_hash = sha (js (last bs))\<rparr>"
      define s1 where "s1 = \<lparr>chain = PList (map PBlock bs @ [PBlock blk]),
          current_transactions = [], nodes = nodes s\<rparr>"
      have m: "mine sha js node_id now s = Some (s1, Inr blk)"
        unfolding s1_def blk_def by (rule mine_blocks [OF Cons.prems(2) ne tip Some])
      have v: "valid_proof sha (block_proof (last bs)) q"
        using Some pow_loop_sound by (simp add: proof_of_work_def)
      have "pair_ok sha js (last bs) blk" using v by (simp add: pair_ok_def blk_def)
      then have ok: "all_pairs_ok sha js (bs @ [blk])"
        using Cons.prems(3,4) by (simp add: all_pairs_ok_snoc)
      have c1: "chain s1 = PList (map PBlock (bs @ [blk]))" by (simp add: s1_def)
      have "run sha js node_id rs s1 = Some s'" using Cons.prems(1) Mine m by simp
      then show ?thesis using Cons.IH [OF _ c1 _ ok] by simp
    qed
  qed
qed

section \<open>Lemmas about consensus\<close>

lemma valid_chain_singleton: "valid_chain sha js (PList [v]) = Inr True"
  using valid_chain_loop_end [of sha js "[v]" v]
  by (simp add: valid_chain_def seq_index_def)

lemma attr_previous_hash_json: "attr_previous_hash (json_of_block b) = Inl AttributeError"
  by (simp add: json_of_block_def)

lemma valid_chain_json_raises:
  assumes "2 \<le> length bs"
  shows "valid_chain sha js (PList (map json_of_block bs)) = Inl AttributeError"
proof -
  from assms obtain a b rest where bs: "bs = a # b # rest"
    by (cases bs; cases "tl bs") auto
  show ?thesis unfolding bs
    by (simp add: valid_chain_def seq_index_def)
       (subst valid_chain_loop.simps, simp add: seq_index_def attr_previous_hash_json)
qed

lemma resolve_loop_skip:
  assumes "fetch node = Response status_code body" and "status_code \<noteq> 200"
  shows "resolve_loop sha js fetch (before @ node # after) max_length new_chain =
         resolve_loop sha js fetch (before @ after) max_length new_chain"
proof (induction before arbitrary: max_length new_chain)
  case Nil
  show ?case using assms by simp
next
  case (Cons n before)
  show ?case
    by (simp add: Cons.IH split: response.splits option.splits sum.splits)
qed

lemma resolve_honest_longer_raises:
  assumes "py_len (chain s) = Inr n" and "n < length bs" and "2 \<le> length bs"
    and "nodes s = node # rest" and "fetch node = get_full_chain bs"
  shows "resolve_conflicts sha js fetch s = (s, Inl AttributeError)"
  using assms
  by (simp add: resolve_conflicts_def get_full_chain_def valid_chain_json_raises)

lemma ex_resolve_equal_length:
  "resolve_conflicts ex_sha ex_js ex_net_one_down (ex_ledger1\<lparr>nodes := [''peer'']\<rparr>) =
     (ex_ledger1\<lparr>nodes := [''peer'']\<rparr>, Inr False)"
  by (simp add: resolve_conflicts_def ex_net_one_down_def get_full_chain_def ex_ledger1_def)

lemma ex_resolve_overstated:
  "resolve_conflicts ex_sha ex_js ex_net_overstated (ex_ledger2\<lparr>nodes := [''peer''], current_transactions := txs\<rparr>) =
     (ex_ledger2\<lparr>nodes := [''peer''], current_transactions := txs, chain := PList [json_of_block ex_genesis]\<rparr>, Inr True)"
  by (simp add: resolve_conflicts_def ex_net_overstated_def ex_ledger2_def valid_chain_singleton)

text \<open>
  What \<open>resolve_conflicts\<close> does whenever it returns: it reports a replacement exactly
  when some peer offers a chain with a reported length greater than the local length;
  then the new chain is one so offered, and otherwise the state is unchanged.
\<close>

lemma valid_chain_truthy: "valid_chain sha js c = Inr True \<Longrightarrow> truthy c"
  by (cases c) (auto simp: valid_chain_def seq_index_def split: sum.splits if_splits)

lemma float_gt_trans: "float_gt a b \<Longrightarrow> float_gt b c \<Longrightarrow> float_gt a c"
  by (cases a; cases b; cases c) auto

lemma resolve_loop_returns:
  assumes "resolve_loop sha js fetch ns ml nc = Inr (ml', nc')"
  shows "(ml' = ml \<and> nc' = nc \<and>
            (\<forall>n\<in>set ns. \<forall>c l. offers sha js fetch n c l \<longrightarrow> \<not> float_gt l ml)) \<or>
         (float_gt ml' ml \<and> (\<exists>n\<in>set ns. offers sha js fetch n nc' ml'))"
  using assms
proof (induction ns arbitrary: ml nc)
  case Nil
  then show ?case by simp
next
  case (Cons node rest)
  show ?case
  proof (cases "\<exists>c l. offers sha js fetch node c l \<and> float_gt l ml")
    case True
    then obtain c l where o: "offers sha js fetch node c l" and gt: "float_gt l ml" by blast
    from o gt Cons.prems have rec: "resolve_loop sha js fetch rest l c = Inr (ml', nc')"
      by (auto simp: offers_def split: response.splits option.splits sum.splits if_splits)
    from Cons.IH [OF rec] consider
      (same) "ml' = l" "nc' = c"
      | (later) "float_gt ml' l" "\<exists>n\<in>set rest. offers sha js fetch n nc' ml'"
      by auto
    then show ?thesis
    proof cases
      case same
      with o gt show ?thesis by auto
    next
      case later
      from later(1) gt have "float_gt ml' ml" by (rule float_gt_trans)
      with later(2) show ?thesis by auto
    qed
  next
    case False
    then have no: "\<And>c l. offers sha js fetch node c l \<Longrightarrow> \<not> float_gt l ml" by blast
    have rec: "resolve_loop sha js fetch rest ml nc = Inr (ml', nc')"
      using Cons.prems no
      by (auto simp: offers_def split: response.splits option.splits sum.splits if_splits)
    from Cons.IH [OF rec] no show ?thesis by auto
  qed
qed

lemma float_gt_irrefl: "\<not> float_gt a a"
  by (cases a) auto

lemma resolve_returns:
  assumes "resolve_conflicts sha js fetch s = (s', Inr replaced)"
  shows "\<exists>n. py_len (chain s) = Inr n \<and>
           replaced = (\<exists>node\<in>set (nodes s). \<exists>c l. offers sha js fetch node c l \<and>
                         float_gt l (Finite (real n))) \<and>
           (if replaced
            then \<exists>node\<in>set (nodes s). \<exists>l. offers sha js fetch node (chain s') l \<and>
                   float_gt l (Finite (real n)) \<and> s' = s\<lparr>chain := chain s'\<rparr>
            else s' = s)"
proof -
  from assms obtain n where n: "py_len (chain s) = Inr n"
    by (cases "py_len (chain s)") (auto simp: resolve_conflicts_def)
  from assms n obtain ml' nc' where
    loop: "resolve_loop sha js fetch (nodes s) (Finite (real n)) PNone = Inr (ml', nc')"
    by (cases "resolve_loop sha js fetch (nodes s) (Finite (real n)) PNone")
       (auto simp: resolve_conflicts_def)
  from assms n loop have
    res: "(if truthy nc' then (s\<lparr>chain := nc'\<rparr>, Inr True) else (s, Inr False)) = (s', Inr replaced)"
    by (auto simp: resolve_conflicts_def split: if_splits)
  from resolve_loop_returns [OF loop] consider
    (none) "nc' = PNone"
      "\<forall>node\<in>set (nodes s). \<forall>c l. offers sha js fetch node c l \<longrightarrow> \<not> float_gt l (Finite (real n))"
    | (some) "float_gt ml' (Finite (real n))" "\<exists>node\<in>set (nodes s). offers sha js fetch node nc' ml'"
    by auto
  then show ?thesis
  proof cases
    case some
    then obtain node where node: "node \<in> set (nodes s)" "offers sha js fetch node nc' ml'" by auto
    then have "valid_chain sha js nc' = Inr True"
      by (auto simp: offers_def split: response.splits option.splits)
    then have "truthy nc'" by (rule valid_chain_truthy)
    with res have "replaced" "s' = s\<lparr>chain := nc'\<rparr>" by auto
    with n node some(1) show ?thesis by (intro exI [of _ n]) auto
  next
    case none
    from none(1) res have "\<not> replaced" "s' = s" by auto
    with n none(2) show ?thesis by (intro exI [of _ n]) auto
  qed
qed

section \<open>Histories return when proofs exist\<close>

lemma pow_returns:
  assumes "0 \<le> p" and "valid_proof sha lp p"
  shows "\<exists>q. proof_of_work sha lp = Some q"
proof -
  have "\<exists>k. valid_proof sha lp (int k)"
    using assms by (intro exI [of _ "nat p"]) simp
  then obtain k where vk: "valid_proof sha lp (int k)"
    and least: "\<forall>j<k. \<not> valid_proof sha lp (int j)"
    using exists_least_iff [of "\<lambda>k. valid_proof sha lp (int k)"] by auto
  have "\<not> valid_proof sha lp r" if "0 \<le> r \<and> r < 0 + int k" for r
  proof -
    from that have "nat r < k" and "int (nat r) = r" by auto
    with least show ?thesis by metis
  qed
  then have "proof_of_work_loop sha lp 0 = Some (0 + int k)"
    using vk by (intro pow_loop_found) auto
  then show ?thesis by (simp add: proof_of_work_def)
qed

lemma run_returns:
  assumes "\<forall>lp. \<exists>p. 0 \<le> p \<and> valid_proof sha lp p"
    and "chain s = PList (map PBlock bs)" and "bs \<noteq> []"
  shows "\<exists>s'. run sha js node_id rs s = Some s'"
  using assms(2,3)
proof (induction rs arbitrary: s bs)
  case Nil
  then show ?case by simp
next
  case (Cons r rs)
  show ?case
  proof (cases r)
    case (Submit tx)
    have "chain (fst (new_transaction_endpoint s tx)) = PList (map PBlock bs)"
      using Cons.prems(1) by (simp add: new_transaction_endpoint_chain)
    from Cons.IH [OF this Cons.prems(2)] Submit show ?thesis by simp
  next
    case (Mine now)
    have ne: "map PBlock bs \<noteq> []" using Cons.prems(2) by simp
    have tip: "last (map PBlock bs) = PBlock (last bs)" using Cons.prems(2) by (simp add: last_map)
    from assms(1) obtain p where "0 \<le> p" "valid_proof sha (block_proof (last bs)) p" by blast
    then obtain q where q: "proof_of_work sha (block_proof (last bs)) = Some q"
      using pow_returns by blast
    define blk where "blk = \<lparr>index = int (length (map PBlock bs)) + 1, timestamp = now,
        transactions = current_transactions s @ [\<lparr>sender = ''0'', recipient = node_id, amount = 1\<rparr>],
        block_proof = q, previous_hash = sha (js (last bs))\<rparr>"
    define s1 where "s1 = \<lparr>chain = PList (map PBlock bs @ [PBlock blk]),
        current_transactions = [], nodes = nodes s\<rparr>"
    have m: "mine sha js node_id now s = Some (s1, Inr blk)"
      unfolding s1_def blk_def by (rule mine_blocks [OF Cons.prems(1) ne tip q])
    have c1: "chain s1 = PList (map PBlock (bs @ [blk]))" by (simp add: s1_def)
    from Cons.IH [OF c1] m Mine show ?thesis by simp
  qed
qed

section \<open>The proof-of-work predicate and search\<close>

text \<open>
  Claim C4. For all integers \<open>last_proof\<close> and \<open>p\<close>, \<open>valid_proof\<close> is true exactly when
  the hexadecimal digest of the decimal text of \<open>last_proof\<close> followed, with no
  separator, by the decimal text of \<open>p\<close> begins with four zero characters. The digest
  is the parameter \<open>sha\<close>; \<open>str_int\<close> is the decimal text (\<open>int_of_str_str_int\<close> reads it
  back).
\<close>

theorem valid_proof_spec:
  "valid_proof sha last_proof p = four_zeros_prefix (sha (str_int last_proof @ str_int p))"
  by (simp add: valid_proof_def four_zeros_prefix_def Let_def take4_prefix)

theorem valid_proof_spec_witness:
  "valid_proof ex_sha 100 3 \<and> four_zeros_prefix (ex_sha (str_int 100 @ str_int 3)) \<and>
   \<not> valid_proof ex_sha (- 7) 12 \<and> \<not> four_zeros_prefix (ex_sha (str_int (- 7) @ str_int 12))"
  using valid_proof_spec [of ex_sha 100 3] valid_proof_spec [of ex_sha "- 7" 12]
  by (simp add: decimal_eval ex_sha_def four_zeros_prefix_def replicate_four_zeros)

text \<open>
  Claim C9. \<open>valid_proof\<close> depends on its two arguments only through the concatenation
  of their decimal texts: two pairs of integers with the same concatenated text, such as
  (1, 23) and (12, 3), get the same answer.
\<close>

theorem valid_proof_concat:
  "str_int a @ str_int b = str_int c @ str_int d \<Longrightarrow> valid_proof sha a b = valid_proof sha c d"
  by (simp add: valid_proof_def)

theorem valid_proof_concat_witness:
  "str_int 1 @ str_int 23 = str_int 12 @ str_int 3 \<and>
   valid_proof ex_sha 1 23 = valid_proof ex_sha 12 3"
  using valid_proof_concat [of 1 23 12 3 ex_sha] by (simp add: decimal_eval)

text \<open>
  Claim C5. For a non-negative \<open>last_proof\<close> for which some non-negative \<open>p\<close> is a valid
  proof, \<open>proof_of_work\<close> returns, and what it returns is the least non-negative valid
  proof; in particular the returned proof is valid.
\<close>

theorem proof_of_work_least:
  assumes "0 \<le> last_proof" and "0 \<le> p" and "valid_proof sha last_proof p"
  shows "\<exists>q. proof_of_work sha last_proof = Some q \<and> 0 \<le> q \<and> q \<le> p \<and>
             valid_proof sha last_proof q \<and> (\<forall>r. 0 \<le> r \<and> r < q \<longrightarrow> \<not> valid_proof sha last_proof r)"
proof -
  define k where "k = (LEAST k. valid_proof sha last_proof (int k))"
  have ex: "valid_proof sha last_proof (int (nat p))" using assms by simp
  have vk: "valid_proof sha last_proof (int k)" unfolding k_def using ex by (rule LeastI)
  have kp: "k \<le> nat p" unfolding k_def using ex by (rule Least_le)
  have least: "\<not> valid_proof sha last_proof r" if "0 \<le> r" "r < int k" for r
  proof
    assume "valid_proof sha last_proof r"
    then have "valid_proof sha last_proof (int (nat r))" using that by simp
    then have "k \<le> nat r" unfolding k_def by (rule Least_le)
    with that show False by simp
  qed
  have "proof_of_work_loop sha last_proof 0 = Some (0 + int k)"
    by (rule pow_loop_found) (use vk least in auto)
  then have "proof_of_work sha last_proof = Some (int k)" by (simp add: proof_of_work_def)
  with vk kp least assms show ?thesis by auto
qed

theorem proof_of_work_least_witness:
  "(0::int) \<le> 100 \<and> (0::int) \<le> 3 \<and> valid_proof ex_sha 100 3 \<and> proof_of_work ex_sha 100 = Some 3"
proof -
  have v: "valid_proof ex_sha 100 3" by (simp add: valid_proof_def ex_sha_def decimal_eval)
  from proof_of_work_least [of 100 3 ex_sha, OF _ _ v]
  obtain q where q: "proof_of_work ex_sha 100 = Some q" "0 \<le> q" "q \<le> 3" "valid_proof ex_sha 100 q"
    by auto
  then have "q = 3" using ex_valid_100 by blast
  with q v show ?thesis by simp
qed

section \<open>The chain validator\<close>

text \<open>
  Claim C3, as amended. For every non-empty sequence of \<^verbatim>\<open>Block\<close> objects \<open>valid_chain\<close>
  returns true when the sequence has fewer than two blocks, and otherwise returns true
  exactly when every pair of neighbours passes (the later block stores the hash of the
  earlier one and its proof is valid against the earlier proof). It returns false at the
  first failing pair: whatever follows the blocks up to that pair is not looked at.
  The claim as written also promises true on the empty sequence; there
  \<^verbatim>\<open>chain[0]\<close> raises \<^verbatim>\<open>IndexError\<close>.
\<close>

theorem valid_chain_nonempty:
  assumes "bs \<noteq> []"
  shows "valid_chain sha js (PList (map PBlock bs)) =
           Inr (if length bs < 2 then True else all_pairs_ok sha js bs) \<and>
         (\<not> all_pairs_ok sha js bs \<longrightarrow> valid_chain sha js (PList (map PBlock bs @ rest)) = Inr False)"
  using valid_chain_blocks [OF assms, of sha js] valid_chain_prefix [OF assms, of sha js rest]
    all_pairs_ok_short [of bs sha js]
  by auto

text \<open>The witness: the two-block chain of the example ledger, and a broken chain.\<close>

theorem valid_chain_nonempty_witness:
  "[ex_genesis, ex_block2] \<noteq> [] \<and>
   valid_chain ex_sha ex_js (PList (map PBlock [ex_genesis, ex_block2])) = Inr True \<and>
   \<not> all_pairs_ok ex_sha ex_js [ex_genesis, ex_genesis] \<and>
   valid_chain ex_sha ex_js (PList (map PBlock [ex_genesis, ex_genesis] @ [PInt 7])) = Inr False"
proof -
  have bad: "\<not> all_pairs_ok ex_sha ex_js [ex_genesis, ex_genesis]"
    by (simp add: all_pairs_ok_two pair_ok_def ex_hash_genesis) (simp add: ex_genesis_def)
  have good: "all_pairs_ok ex_sha ex_js [ex_genesis, ex_block2]"
    by (simp add: all_pairs_ok_two ex_pair_ok)
  show ?thesis
    using valid_chain_nonempty [of "[ex_genesis, ex_block2]" ex_sha ex_js "[]"]
      valid_chain_nonempty [of "[ex_genesis, ex_genesis]" ex_sha ex_js "[PInt 7]"] bad good
    by simp
qed

text \<open>The counterexample to the claim as written: the empty sequence.\<close>

theorem valid_chain_empty_counterexample:
  "valid_chain ex_sha ex_js (PList (map PBlock [])) = Inl IndexError \<and>
   valid_chain ex_sha ex_js (PList (map PBlock [])) \<noteq> Inr True"
  by (simp add: valid_chain_def seq_index_empty)

section \<open>Mining\<close>

text \<open>
  Claim C6, as amended. In a ledger whose chain is a non-empty list ending in a
  \<^verbatim>\<open>Block\<close> object, and for whose tip proof some non-negative valid proof exists, \<open>mine\<close>
  returns; it appends exactly one block; the block's transactions are the pending pool
  at the time of the call followed by the one reward transaction (sender "0", recipient
  the node's id, amount 1); its proof is valid against the proof of the old tip; its
  \<open>previous_hash\<close> is the hash of the old tip; and afterwards the pending pool is empty.
  The claim as written speaks of every ledger state. The chain that \<open>resolve_conflicts\<close>
  installs is a list of decoded JSON objects, and in the state it leaves \<open>mine\<close> raises
  at \<^verbatim>\<open>last_block.proof\<close>.
\<close>

theorem mine_appends_block:
  assumes "chain s = PList xs" and "xs \<noteq> []" and "last xs = PBlock tip"
    and "0 \<le> p" and "valid_proof sha (block_proof tip) p"
  shows "\<exists>blk s'. mine sha js node_id now s = Some (s', Inr blk) \<and>
           chain s' = PList (xs @ [PBlock blk]) \<and>
           transactions blk =
             current_transactions s @ [\<lparr>sender = ''0'', recipient = node_id, amount = 1\<rparr>] \<and>
           valid_proof sha (block_proof tip) (block_proof blk) \<and>
           hash sha js (PBlock tip) = Inr (previous_hash blk) \<and>
           current_transactions s' = [] \<and> nodes s' = nodes s"
proof -
  have "\<exists>k. valid_proof sha (block_proof tip) (int k)"
    using assms(4,5) by (intro exI [of _ "nat p"]) simp
  then obtain k where vk: "valid_proof sha (block_proof tip) (int k)"
    and least: "\<forall>j<k. \<not> valid_proof sha (block_proof tip) (int j)"
    using exists_least_iff [of "\<lambda>k. valid_proof sha (block_proof tip) (int k)"] by auto
  have "\<not> valid_proof sha (block_proof tip) r" if "0 \<le> r \<and> r < 0 + int k" for r
  proof -
    from that have "nat r < k" and "int (nat r) = r" by auto
    with least show ?thesis by metis
  qed
  then have "proof_of_work_loop sha (block_proof tip) 0 = Some (0 + int k)"
    using vk by (intro pow_loop_found) auto
  then have pow: "proof_of_work sha (block_proof tip) = Some (int k)"
    by (simp add: proof_of_work_def)
  show ?thesis
    unfolding mine_blocks [OF assms(1-3) pow] using vk by simp
qed

theorem mine_appends_block_witness:
  "chain ex_ledger1 = PList [PBlock ex_genesis] \<and> [PBlock ex_genesis] \<noteq> [] \<and>
   last [PBlock ex_genesis] = PBlock ex_genesis \<and> (0::int) \<le> 3 \<and>
   valid_proof ex_sha (block_proof ex_genesis) 3 \<and>
   mine ex_sha ex_js ''node'' 2 (ex_ledger1\<lparr>current_transactions := [ex_tx]\<rparr>) = Some (ex_ledger2, Inr ex_block2)"
proof -
  have v: "valid_proof ex_sha (block_proof ex_genesis) 3"
    using ex_valid_100 [of 3] by (simp add: ex_genesis_def)
  have c: "chain (ex_ledger1\<lparr>current_transactions := [ex_tx]\<rparr>) = PList [PBlock ex_genesis]"
    by (simp add: ex_ledger1_def)
  from mine_appends_block [OF c _ _ _ v, where node_id = "''node''" and now = 2 and js = ex_js]
  obtain blk s' where r: "mine ex_sha ex_js ''node'' 2 (ex_ledger1\<lparr>current_transactions := [ex_tx]\<rparr>) = Some (s', Inr blk)"
    by auto
  have p: "proof_of_work ex_sha (block_proof ex_genesis) = Some 3"
    using ex_pow_100 by (simp add: ex_genesis_def)
  have "mine ex_sha ex_js ''node'' 2 (ex_ledger1\<lparr>current_transactions := [ex_tx]\<rparr>) = Some (ex_ledger2, Inr ex_block2)"
    using mine_blocks [OF c _ _ p, where node_id = "''node''" and now = 2 and js = ex_js]
    by (simp add: ex_ledger2_def ex_block2_def ex_hash_genesis) (simp add: ex_ledger1_def)
  with v c r show ?thesis by simp
qed

text \<open>
  The counterexample to the claim as written: the ledger of two blocks with one pending
  transaction, after it has adopted the one-element chain of a peer that reported length
  3. There \<open>mine\<close> raises \<^verbatim>\<open>AttributeError\<close>, appends nothing and leaves the pool as
  it was.
\<close>

theorem mine_after_adoption_counterexample:
  "mine ex_sha ex_js ''node'' 3
     (fst (resolve_conflicts ex_sha ex_js ex_net_overstated
             (ex_ledger2\<lparr>nodes := [''peer''], current_transactions := [ex_tx]\<rparr>))) =
   Some (ex_ledger2\<lparr>nodes := [''peer''], current_transactions := [ex_tx],
                     chain := PList [json_of_block ex_genesis]\<rparr>,
         Inl AttributeError)"
  by (simp add: ex_resolve_overstated mine_def last_block_def seq_index_def json_of_block_def)

section \<open>Chains built by mining\<close>

text \<open>
  Claim C1. Start from the freshly constructed ledger, which holds the genesis block
  only, and apply any finite sequence of \<open>mine\<close> and transaction submissions. Whenever
  all of them have returned, \<open>valid_chain\<close> on the resulting chain returns true.
\<close>

theorem mined_chain_valid:
  assumes "run sha js node_id rs (fst (Blockchain_init sha js t0)) = Some s"
  shows "valid_chain sha js (chain s) = Inr True"
proof -
  let ?g = "\<lparr>index = 1, timestamp = t0, transactions = [], block_proof = 100, previous_hash = ''1''\<rparr>"
  have c: "chain (fst (Blockchain_init sha js t0)) = PList (map PBlock [?g])"
    by (simp add: Blockchain_init_eq)
  have "all_pairs_ok sha js [?g]" by (simp add: all_pairs_ok_short)
  from run_keeps_linked [OF assms c _ this]
  obtain bs where "chain s = PList (map PBlock bs)" "bs \<noteq> []" "all_pairs_ok sha js bs" by auto
  then show ?thesis by (simp add: valid_chain_blocks)
qed

theorem mined_chain_valid_witness:
  "run ex_sha ex_js ''node'' [Submit ex_tx, Mine 2] (fst (Blockchain_init ex_sha ex_js 1)) = Some ex_ledger2 \<and>
   valid_chain ex_sha ex_js (chain ex_ledger2) = Inr True"
proof -
  have r: "run ex_sha ex_js ''node'' [Submit ex_tx, Mine 2] (fst (Blockchain_init ex_sha ex_js 1)) = Some ex_ledger2"
    by (simp only: ex_init ex_run)
  from mined_chain_valid [OF r] r show ?thesis by simp
qed

section \<open>Consensus between nodes\<close>

text \<open>
  Claim C2 says that \<open>resolve_conflicts\<close> replaces the local chain exactly when some peer
  sends a chain that passes the validator with a reported length greater than the local
  one, and otherwise leaves the chain and returns false. The code does not do this. The
  chain it fetches is a list of decoded JSON objects, not of \<^verbatim>\<open>Block\<close> objects, and
  \<open>valid_chain\<close> reads \<^verbatim>\<open>block.previous_hash\<close> of its second element. Below, the local
  ledger holds the genesis block, and its only peer holds and sends the two-block chain
  of the example, which the validator accepts as a chain of blocks: \<open>resolve_conflicts\<close>
  raises \<^verbatim>\<open>AttributeError\<close>, and neither replaces the chain nor returns false.
  \<open>resolve_honest_longer_raises\<close> is the same for every peer chain of two blocks or more
  that is longer than the local one; \<open>resolve_returns\<close> states the rule the code follows
  whenever it does return.
\<close>

theorem resolve_longer_chain_raises:
  "valid_chain ex_sha ex_js (PList (map PBlock [ex_genesis, ex_block2])) = Inr True \<and>
   resolve_conflicts ex_sha ex_js ex_net_longer (ex_ledger1\<lparr>nodes := [''peer'']\<rparr>) =
     (ex_ledger1\<lparr>nodes := [''peer'']\<rparr>, Inl AttributeError)"
proof -
  have "valid_chain ex_sha ex_js (PList (map PBlock [ex_genesis, ex_block2])) = Inr True"
    using valid_chain_blocks [of "[ex_genesis, ex_block2]" ex_sha ex_js]
    by (simp add: all_pairs_ok_two ex_pair_ok)
  moreover have "resolve_conflicts ex_sha ex_js ex_net_longer (ex_ledger1\<lparr>nodes := [''peer'']\<rparr>) =
     (ex_ledger1\<lparr>nodes := [''peer'']\<rparr>, Inl AttributeError)"
    by (rule resolve_honest_longer_raises [where n = 1 and bs = "[ex_genesis, ex_block2]"])
       (simp_all add: ex_ledger1_def ex_net_longer_def)
  ultimately show ?thesis by simp
qed

text \<open>
  Claim C7, as amended. A peer whose response has a status code other than 200 is
  skipped: \<open>resolve_conflicts\<close> gives the same result and the same chain as without that
  peer in the set. The claim as written also covers a fetch that fails with a network
  error; \<^verbatim>\<open>requests.get\<close> then raises, nothing catches it, and \<open>resolve_conflicts\<close>
  raises.
\<close>

theorem resolve_skips_non_200:
  assumes "fetch node = Response status_code body" and "status_code \<noteq> 200"
    and "nodes s = before @ node # after"
  shows "snd (resolve_conflicts sha js fetch s) =
           snd (resolve_conflicts sha js fetch (s\<lparr>nodes := before @ after\<rparr>)) \<and>
         chain (fst (resolve_conflicts sha js fetch s)) =
           chain (fst (resolve_conflicts sha js fetch (s\<lparr>nodes := before @ after\<rparr>)))"
proof -
  have "resolve_loop sha js fetch (before @ node # after) m c =
        resolve_loop sha js fetch (before @ after) m c" for m c
    using assms(1,2) by (rule resolve_loop_skip)
  then show ?thesis
    using assms(3) by (simp add: resolve_conflicts_def split: sum.splits prod.splits)
qed

theorem resolve_skips_non_200_witness:
  "ex_net_one_down ''down'' = Response 503 None \<and> (503::int) \<noteq> 200 \<and>
   nodes (ex_ledger1\<lparr>nodes := [''down'', ''peer'']\<rparr>) = [] @ ''down'' # [''peer''] \<and>
   snd (resolve_conflicts ex_sha ex_js ex_net_one_down (ex_ledger1\<lparr>nodes := [''down'', ''peer'']\<rparr>)) = Inr False \<and>
   chain (fst (resolve_conflicts ex_sha ex_js ex_net_one_down (ex_ledger1\<lparr>nodes := [''down'', ''peer'']\<rparr>))) =
     chain ex_ledger1"
proof -
  have f: "ex_net_one_down ''down'' = Response 503 None" by (simp add: ex_net_one_down_def)
  have n: "nodes (ex_ledger1\<lparr>nodes := [''down'', ''peer'']\<rparr>) = [] @ ''down'' # [''peer'']" by simp
  have c: "(503::int) \<noteq> 200" by simp
  from resolve_skips_non_200 [where fetch = ex_net_one_down and node = "''down''"
      and status_code = 503 and body = None and before = "[]" and after = "[''peer'']"
      and s = "ex_ledger1\<lparr>nodes := [''down'', ''peer'']\<rparr>" and sha = ex_sha and js = ex_js, OF f c n]
    f n show ?thesis
    by (simp add: ex_resolve_equal_length)
qed

text \<open>The counterexample to the claim as written: the only peer cannot be reached.\<close>

theorem resolve_unreachable_counterexample:
  "resolve_conflicts ex_sha ex_js ex_net_unreachable (ex_ledger1\<lparr>nodes := [''peer'']\<rparr>) =
     (ex_ledger1\<lparr>nodes := [''peer'']\<rparr>, Inl ConnectionError)"
  by (simp add: resolve_conflicts_def ex_net_unreachable_def ex_ledger1_def)

text \<open>
  Claim C8. Adoption goes by the length the peer reports, not by the number of blocks it
  sends: when the local chain has more than one block and a peer reports a greater
  length but sends a chain of one block, that chain passes the validator,
  \<open>resolve_conflicts\<close> replaces the local chain with it and returns true.
\<close>

theorem resolve_adopts_shorter_chain:
  assumes "py_len (chain s) = Inr n" and "1 < n" and "nodes s = [node]"
    and "fetch node = Response 200 (Some (PDict [(''chain'', PList [b]), (''length'', PInt len)]))"
    and "int n < len"
  shows "valid_chain sha js (PList [b]) = Inr True \<and>
         resolve_conflicts sha js fetch s = (s\<lparr>chain := PList [b]\<rparr>, Inr True)"
  using assms by (simp add: resolve_conflicts_def valid_chain_singleton)

theorem resolve_adopts_shorter_chain_witness:
  "py_len (chain (ex_ledger2\<lparr>nodes := [''peer'']\<rparr>)) = Inr 2 \<and> (1::nat) < 2 \<and>
   nodes (ex_ledger2\<lparr>nodes := [''peer'']\<rparr>) = [''peer''] \<and>
   ex_net_overstated ''peer'' =
     Response 200 (Some (PDict [(''chain'', PList [json_of_block ex_genesis]), (''length'', PInt 3)])) \<and>
   int 2 < 3 \<and>
   valid_chain ex_sha ex_js (PList [json_of_block ex_genesis]) = Inr True \<and>
   resolve_conflicts ex_sha ex_js ex_net_overstated (ex_ledger2\<lparr>nodes := [''peer'']\<rparr>) =
     (ex_ledger2\<lparr>nodes := [''peer''], chain := PList [json_of_block ex_genesis]\<rparr>, Inr True)"
proof -
  have l: "py_len (chain (ex_ledger2\<lparr>nodes := [''peer'']\<rparr>)) = Inr 2" by (simp add: ex_ledger2_def)
  have f: "ex_net_overstated ''peer'' =
     Response 200 (Some (PDict [(''chain'', PList [json_of_block ex_genesis]), (''length'', PInt 3)]))"
    by (simp add: ex_net_overstated_def)
  have n: "nodes (ex_ledger2\<lparr>nodes := [''peer'']\<rparr>) = [''peer'']" by simp
  have a: "(1::nat) < 2" and b: "int 2 < 3" by simp_all
  from resolve_adopts_shorter_chain [where s = "ex_ledger2\<lparr>nodes := [''peer'']\<rparr>" and n = 2
      and node = "''peer''" and fetch = ex_net_overstated and b = "json_of_block ex_genesis"
      and len = 3 and sha = ex_sha and js = ex_js, OF l a n f b]
    l f show ?thesis by simp
qed

text \<open>
  Claim C10. \<open>resolve_conflicts\<close> changes nothing but the chain: whatever the state and
  the outcome (replaced, not replaced, or an exception), the pending transactions and
  the peer set afterwards are those before.
\<close>

theorem resolve_frame:
  "current_transactions (fst (resolve_conflicts sha js fetch s)) = current_transactions s \<and>
   nodes (fst (resolve_conflicts sha js fetch s)) = nodes s"
  by (simp add: resolve_conflicts_def split: sum.splits prod.splits)

theorem resolve_frame_witness:
  "snd (resolve_conflicts ex_sha ex_js ex_net_overstated
          (ex_ledger2\<lparr>nodes := [''peer''], current_transactions := [ex_tx]\<rparr>)) = Inr True \<and>
   current_transactions (fst (resolve_conflicts ex_sha ex_js ex_net_overstated
          (ex_ledger2\<lparr>nodes := [''peer''], current_transactions := [ex_tx]\<rparr>))) = [ex_tx] \<and>
   nodes (fst (resolve_conflicts ex_sha ex_js ex_net_overstated
          (ex_ledger2\<lparr>nodes := [''peer''], current_transactions := [ex_tx]\<rparr>))) = [''peer'']"
  using resolve_frame [of ex_sha ex_js ex_net_overstated "ex_ledger2\<lparr>nodes := [''peer''], current_transactions := [ex_tx]\<rparr>"]
  by (simp add: ex_resolve_overstated)

end
